theory Spec2Isabelle
  imports Complex_Main
begin

section \<open>Python strings as used by the chunker\<close>

text \<open>
  A Python \<open>str\<close> is modelled as a \<open>string\<close> whose characters are the code points
  below 256. \<open>isspace\<close> is the character class shared by \<open>str.strip()\<close> and by the
  regular expression \<open>\s\<close> on \<open>str\<close> patterns: tab, line feed, vertical tab, form feed,
  carriage return, the separators 0x1C..0x1F, space, NEL and the no-break space.
\<close>

definition isspace :: "char \<Rightarrow> bool" where
  "isspace c \<longleftrightarrow> c \<in> {CHR 0x09, CHR 0x0A, CHR 0x0B, CHR 0x0C, CHR 0x0D,
                      CHR 0x1C, CHR 0x1D, CHR 0x1E, CHR 0x1F, CHR 0x20, CHR 0x85, CHR 0xA0}"

text \<open>\<open>s.strip()\<close>: drop the leading and the trailing whitespace.\<close>

definition strip :: "string \<Rightarrow> string" where
  "strip s = rev (dropWhile isspace (rev (dropWhile isspace s)))"

text \<open>
  \<open>text.split('\n\n')\<close>: the pieces between the leftmost, non-overlapping occurrences of
  two line feeds. The first argument is the piece being read.
\<close>

fun split_blank :: "string \<Rightarrow> string \<Rightarrow> string list" where
  "split_blank cur (a # b # cs) =
     (if a = CHR 0x0A \<and> b = CHR 0x0A then cur # split_blank [] cs
      else split_blank (cur @ [a]) (b # cs))"
| "split_blank cur [a] = [cur @ [a]]"
| "split_blank cur [] = [cur]"

text \<open>The character class \<open>[.!?]\<close> of the sentence pattern.\<close>

definition sentence_end :: "char \<Rightarrow> bool" where
  "sentence_end c \<longleftrightarrow> c = CHR ''.'' \<or> c = CHR ''!'' \<or> c = CHR ''?''"

text \<open>
  \<open>re.split(r'(?<=[.!?])\s+', paragraph)\<close>: a match starts at a whitespace character
  whose predecessor is in \<open>[.!?]\<close> and takes the whole run of whitespace (\<open>\s+\<close> is
  greedy). The first argument is the piece being read; the predecessor of the next
  character is its last character. When the piece is empty the scan is at the start of
  the string or just behind a match, where the predecessor is missing or is whitespace,
  so the look-behind fails.
\<close>

function re_split :: "string \<Rightarrow> string \<Rightarrow> string list" where
  "re_split cur [] = [cur]"
| "re_split cur (c # cs) =
     (if isspace c \<and> cur \<noteq> [] \<and> sentence_end (last cur)
      then cur # re_split [] (dropWhile isspace cs)
      else re_split (cur @ [c]) cs)"
  by pat_completeness auto
termination
  by (relation "measure (\<lambda>(cur, s). length s)")
     (auto simp: le_imp_less_Suc length_dropWhile_le)

section \<open>The chunker\<close>

text \<open>
  The state of the loops of \<open>split_text_into_chunks\<close> is the pair
  \<open>(chunks, current_chunk)\<close>. \<open>add_sentences\<close> is the inner loop over the sentences of
  an oversized paragraph, \<open>add_paragraphs\<close> the outer loop over the paragraphs.
  \<open>max_chunk_size\<close> is a Python \<open>int\<close>.
\<close>

fun add_sentences :: "int \<Rightarrow> string list \<Rightarrow> string list \<times> string \<Rightarrow> string list \<times> string" where
  "add_sentences max_chunk_size [] st = st"
| "add_sentences max_chunk_size (sentence # rest) (chunks, current_chunk) =
     (if int (length current_chunk) + int (length sentence) \<le> max_chunk_size
      then add_sentences max_chunk_size rest
             (chunks, if current_chunk \<noteq> [] then current_chunk @ '' '' @ sentence else sentence)
      else add_sentences max_chunk_size rest
             (if current_chunk \<noteq> [] then chunks @ [strip current_chunk] else chunks, sentence))"

fun add_paragraphs :: "int \<Rightarrow> string list \<Rightarrow> string list \<times> string \<Rightarrow> string list \<times> string" where
  "add_paragraphs max_chunk_size [] st = st"
| "add_paragraphs max_chunk_size (p # rest) (chunks, current_chunk) =
     (let paragraph = strip p in
      if paragraph = [] then add_paragraphs max_chunk_size rest (chunks, current_chunk)
      else if int (length paragraph) > max_chunk_size
      then add_paragraphs max_chunk_size rest
             (add_sentences max_chunk_size (re_split [] paragraph) (chunks, current_chunk))
      else if int (length current_chunk) + int (length paragraph) \<le> max_chunk_size
      then add_paragraphs max_chunk_size rest
             (chunks, if current_chunk \<noteq> []
                      then current_chunk @ [CHR 0x0A, CHR 0x0A] @ paragraph else paragraph)
      else add_paragraphs max_chunk_size rest (chunks @ [strip current_chunk], paragraph))"

definition split_text_into_chunks :: "string \<Rightarrow> int \<Rightarrow> string list" where
  "split_text_into_chunks text max_chunk_size =
     (case add_paragraphs max_chunk_size (split_blank [] text) ([], []) of
        (chunks, current_chunk) \<Rightarrow>
          if current_chunk \<noteq> [] then chunks @ [strip current_chunk] else chunks)"

text \<open>
  The units the chunker never cuts: the sentences of every non-blank paragraph (a
  paragraph without a sentence boundary is its own single sentence).
\<close>

definition source_units :: "string \<Rightarrow> string list" where
  "source_units text =
     concat (map (\<lambda>p. re_split [] (strip p)) (filter (\<lambda>p. strip p \<noteq> []) (split_blank [] text)))"

text \<open>What is left of a string when whitespace is ignored.\<close>

definition content_of :: "string \<Rightarrow> string" where
  "content_of s = filter (\<lambda>c. \<not> isspace c) s"

definition state_content :: "string list \<times> string \<Rightarrow> string" where
  "state_content st = content_of (concat (fst st) @ snd st)"

text \<open>The loop invariant behind the shape of the chunks.\<close>

definition starts_clean :: "string \<Rightarrow> bool" where
  "starts_clean s \<longleftrightarrow> s = [] \<or> \<not> isspace (hd s)"

definition chunk_ok :: "string \<Rightarrow> bool" where
  "chunk_ok c \<longleftrightarrow> c \<noteq> [] \<and> strip c = c"

definition state_ok :: "string list \<times> string \<Rightarrow> bool" where
  "state_ok st \<longleftrightarrow> list_all chunk_ok (fst st) \<and> starts_clean (snd st)"

definition ends_clean :: "string \<Rightarrow> bool" where
  "ends_clean s \<longleftrightarrow> s = [] \<or> \<not> isspace (last s)"

text \<open>
  The loop invariant behind the size of the chunks: a string is empty, or at most two
  characters longer than \<open>max_chunk_size\<close>, or one of the units \<open>U\<close>.
\<close>

definition fits :: "int \<Rightarrow> string set \<Rightarrow> string \<Rightarrow> bool" where
  "fits m U s \<longleftrightarrow> s = [] \<or> int (length s) \<le> m + 2 \<or> s \<in> U"

definition state_fits :: "int \<Rightarrow> string set \<Rightarrow> string list \<times> string \<Rightarrow> bool" where
  "state_fits m U st \<longleftrightarrow> list_all (fits m U) (fst st) \<and> fits m U (snd st)"

section \<open>Chunk records and file processing\<close>

text \<open>
  The dictionaries built by \<open>process_file\<close> and \<open>process_pdf\<close>: the keys \<open>type\<close> and
  \<open>content\<close>, and \<open>metadata\<close> for the chunks of a PDF only.
\<close>

record metadata =
  source :: string
  page :: int
  chunk :: int

record chunk_record =
  type :: string
  content :: string
  metadata :: "metadata option"

text \<open>
  What the readers outside the program hand to \<open>process_file\<close>, by the branch the file
  extension selects: the text of a \<open>.txt\<close> or \<open>.md\<close> file, the page texts of a \<open>.pdf\<close>,
  the paragraph texts of a \<open>.docx\<close>, a file of another extension, or a file whose
  reading raises (every such exception is caught and the file yields \<open>None\<close>).
  The messages that \<open>process_file\<close> and \<open>process_pdf\<close> print for the last two are
  left out.
\<close>

datatype file_body =
    TextBody string
  | PdfBody "string list"
  | DocxBody "string list"
  | Unsupported
  | Unreadable

record source_file =
  file_path :: string
  body :: file_body

definition text_chunk :: "string \<Rightarrow> chunk_record" where
  "text_chunk c = \<lparr>type = ''text'', content = c, metadata = None\<rparr>"

text \<open>The chunks of one PDF page; \<open>number\<close> is the page's 0-based \<open>page.number\<close>.\<close>

definition page_chunks :: "string \<Rightarrow> nat \<Rightarrow> string \<Rightarrow> chunk_record list" where
  "page_chunks path number text =
     map (\<lambda>(chunk_idx, c).
            \<lparr>type = ''text'', content = c,
             metadata = Some \<lparr>source = path, page = int number + 1, chunk = int chunk_idx + 1\<rparr>\<rparr>)
         (enumerate 0 (split_text_into_chunks text 1000))"

definition process_pdf :: "string \<Rightarrow> string list \<Rightarrow> chunk_record list" where
  "process_pdf path pages =
     concat (map (\<lambda>(number, text). page_chunks path number text) (enumerate 0 pages))"

text \<open>\<open>"\n\n".join(...)\<close>\<close>

fun join_blank :: "string list \<Rightarrow> string" where
  "join_blank [] = []"
| "join_blank [p] = p"
| "join_blank (p # q # ps) = p @ [CHR 0x0A, CHR 0x0A] @ join_blank (q # ps)"

definition process_file :: "source_file \<Rightarrow> chunk_record list option" where
  "process_file f =
     (case body f of
        TextBody text \<Rightarrow> Some (map text_chunk (split_text_into_chunks text 1000))
      | PdfBody pages \<Rightarrow> Some (process_pdf (file_path f) pages)
      | DocxBody paras \<Rightarrow> Some (map text_chunk (split_text_into_chunks (join_blank paras) 1000))
      | Unsupported \<Rightarrow> None
      | Unreadable \<Rightarrow> None)"

section \<open>Batches\<close>

text \<open>
  The exceptions of the run. \<open>ValueError\<close>, \<open>ZeroDivisionError\<close> and \<open>OtherException\<close>
  (any other class, with its message) are instances of \<open>Exception\<close> that print.
  \<open>Unprintable e\<close> is an instance of \<open>Exception\<close> whose printing raises \<open>e\<close>: its
  \<open>__str__\<close> raises, or its text cannot be encoded for the output. \<open>BaseException\<close> is
  an instance of \<open>BaseException\<close> that is not an instance of \<open>Exception\<close>, such as
  \<open>SystemExit\<close> or the \<open>CancelledError\<close> of \<open>asyncio\<close>.
\<close>

datatype py_exception =
    ValueError
  | ZeroDivisionError
  | OtherException string
  | Unprintable py_exception
  | BaseException string

text \<open>\<open>isinstance(e, Exception)\<close>, the test of every \<open>except Exception\<close> of the program.\<close>

fun is_exception :: "py_exception \<Rightarrow> bool" where
  "is_exception (BaseException name) = False"
| "is_exception e = True"

text \<open>What \<open>print(e)\<close> and \<open>str(e)\<close> raise, \<open>None\<close> when the line is written.\<close>

fun print_raises :: "py_exception \<Rightarrow> py_exception option" where
  "print_raises (Unprintable e) = Some e"
| "print_raises e = None"

text \<open>
  \<open>range(start, stop, step)\<close> as a list: a zero step raises \<open>ValueError\<close>, a positive
  step counts up while below \<open>stop\<close>, a negative one counts down while above it.
\<close>

function range_from :: "int \<Rightarrow> int \<Rightarrow> int \<Rightarrow> int list" where
  "range_from i stop step =
     (if (0 < step \<and> i < stop) \<or> (step < 0 \<and> stop < i)
      then i # range_from (i + step) stop step else [])"
  by pat_completeness auto
termination
  by (relation "measure (\<lambda>(i, stop, step). nat (if 0 < step then stop - i else i - stop))") auto

definition py_range :: "int \<Rightarrow> int \<Rightarrow> int \<Rightarrow> py_exception + int list" where
  "py_range start stop step = (if step = 0 then Inl ValueError else Inr (range_from start stop step))"

text \<open>The slice \<open>xs[i:j]\<close>: negative bounds count from the end, and both are clamped.\<close>

definition py_slice :: "'a list \<Rightarrow> int \<Rightarrow> int \<Rightarrow> 'a list" where
  "py_slice xs i j =
     (let n = int (length xs);
          lo = (if i < 0 then max 0 (i + n) else min i n);
          hi = (if j < 0 then max 0 (j + n) else min j n)
      in take (nat (hi - lo)) (drop (nat lo) xs))"

text \<open>
  The batch assembly of \<open>import_with_batching\<close>:
  \<open>[all_chunks[i:i + batch_size] for i in range(0, len(all_chunks), batch_size)]\<close>.
\<close>

definition assemble :: "'a list \<Rightarrow> int \<Rightarrow> py_exception + 'a list list" where
  "assemble all_chunks batch_size =
     (case py_range 0 (int (length all_chunks)) batch_size of
        Inl e \<Rightarrow> Inl e
      | Inr starts \<Rightarrow> Inr (map (\<lambda>i. py_slice all_chunks i (i + batch_size)) starts))"

section \<open>Submitting a batch\<close>

text \<open>
  The sink is the collection's dynamic batch: given the objects of one batch it either
  takes them (\<open>None\<close>) or raises. \<open>submit_objects\<close> is the body of the \<open>try\<close> of
  \<open>process_batch\<close>, \<open>process_batch\<close> adds the handler \<open>except Exception as e: print(e)\<close>.
  The handler takes instances of \<open>Exception\<close> only, anything else leaves the function
  as it was raised; when the \<open>print\<close> of the handler raises, that exception leaves the
  function; otherwise the line is printed and control falls through to the end of the
  function. The result is what was printed and how the call ended: \<open>Inr ()\<close> is the
  normal return of \<open>None\<close>, \<open>Inl e\<close> the exception that the future will hold. The
  objects added to the batch carry the keys of the chunks unchanged, so the sink is
  given the chunks.
\<close>

datatype event =
    PrintException py_exception
  | PrintRate int real
  | PrintFinished nat real
  | PrintFinalRate real
  | PrintImportError py_exception

definition submit_objects ::
  "(chunk_record list \<Rightarrow> py_exception option) \<Rightarrow> chunk_record list \<Rightarrow> py_exception + unit" where
  "submit_objects sink chunks = (case sink chunks of Some e \<Rightarrow> Inl e | None \<Rightarrow> Inr ())"

definition process_batch ::
  "(chunk_record list \<Rightarrow> py_exception option) \<Rightarrow> chunk_record list
     \<Rightarrow> event list \<times> (py_exception + unit)" where
  "process_batch sink chunks =
     (case submit_objects sink chunks of
        Inl e \<Rightarrow>
          if is_exception e
          then (case print_raises e of
                  None \<Rightarrow> ([PrintException e], Inr ())
                | Some e' \<Rightarrow> ([], Inl e'))
          else ([], Inl e)
      | Inr u \<Rightarrow> ([], Inr ()))"

section \<open>The run\<close>

text \<open>
  \<open>time.time()\<close> is a clock read in order: \<open>clock k\<close> is the value of the \<open>k\<close>-th reading
  of the run, \<open>clock 0\<close> being \<open>start_time\<close>. Readings are reals; the difference of two
  readings is zero exactly when they are equal, as for the floats of the program, and a
  division by a zero difference raises \<open>ZeroDivisionError\<close>.

  \<open>collect\<close> is the loop over the futures, on the state \<open>(completed, readings, printed)\<close>.
  \<open>future.result()\<close> re-raises what the call raised. \<open>PrintRate c r\<close> stands for the two
  progress lines printed when the running total is \<open>c\<close>, \<open>r\<close> being the rate shown.
\<close>

fun collect ::
  "int \<Rightarrow> (nat \<Rightarrow> real) \<Rightarrow> (py_exception + unit) list \<Rightarrow> int \<times> nat \<times> event list
     \<Rightarrow> (int \<times> nat \<times> event list) \<times> py_exception option" where
  "collect batch_size clock [] st = (st, None)"
| "collect batch_size clock (future # rest) (completed, readings, printed) =
     (case future of
        Inl e \<Rightarrow> ((completed, readings, printed), Some e)
      | Inr u \<Rightarrow>
          (let completed = completed + batch_size in
           if completed mod 5000 = 0
           then (let elapsed = clock readings - clock 0 in
                 if elapsed = 0
                 then ((completed, Suc readings, printed), Some ZeroDivisionError)
                 else collect batch_size clock rest
                        (completed, Suc readings,
                         printed @ [PrintRate completed (of_int completed / elapsed)]))
           else collect batch_size clock rest (completed, readings, printed)))"

text \<open>
  What a run leaves behind: the paths handed to \<open>process_file\<close>, the batches handed to
  the executor, what the workers and the main thread printed, the last value of the
  local \<open>completed\<close> (0 when the loop was not reached), \<open>elapsed_time\<close> once computed, and
  the exception the call re-raised, if any. The workers run concurrently with the
  main thread, so their output is kept apart from it; only the main thread changes
  \<open>completed\<close>. The sink is asked by the position of the batch in the submission
  order. All batches are handed to the executor before the first result is awaited,
  and leaving the \<open>with\<close> block waits for every worker, also when the loop raises.
\<close>

record run =
  processed :: "string list"
  submitted :: "chunk_record list list"
  worker_printed :: "event list"
  main_printed :: "event list"
  final_completed :: int
  elapsed_time :: "real option"
  raised :: "py_exception option"

definition gather :: "source_file list \<Rightarrow> chunk_record list" where
  "gather files =
     concat (map (\<lambda>f. case process_file f of None \<Rightarrow> [] | Some processed_chunks \<Rightarrow> processed_chunks) files)"

text \<open>
  The handler of \<open>import_with_batching\<close>,
  \<open>except Exception as e: print(f"Error during import: {str(e)}"); raise\<close>: what it
  prints and the exception that leaves the function. An exception that is not an
  instance of \<open>Exception\<close> passes by the handler.
\<close>

definition import_error :: "py_exception \<Rightarrow> event list \<times> py_exception" where
  "import_error e =
     (if is_exception e
      then (case print_raises e of
              None \<Rightarrow> ([PrintImportError e], e)
            | Some e' \<Rightarrow> ([], e'))
      else ([], e))"

definition import_with_batching ::
  "source_file list \<Rightarrow> int \<Rightarrow> (nat \<Rightarrow> chunk_record list \<Rightarrow> py_exception option)
     \<Rightarrow> (nat \<Rightarrow> real) \<Rightarrow> run" where
  "import_with_batching files batch_size sink clock =
     (let all_chunks = gather files in
      case assemble all_chunks batch_size of
        Inl e \<Rightarrow>
          \<lparr>processed = map file_path files, submitted = [], worker_printed = [],
           main_printed = fst (import_error e), final_completed = 0, elapsed_time = None,
           raised = Some (snd (import_error e))\<rparr>
      | Inr batches \<Rightarrow>
          (let calls = map (\<lambda>(n, batch). process_batch (sink n) batch) (enumerate 0 batches);
               r = \<lparr>processed = map file_path files, submitted = batches,
                    worker_printed = concat (map fst calls),
                    main_printed = [], final_completed = 0, elapsed_time = None, raised = None\<rparr>
           in case collect batch_size clock (map snd calls) (0, 1, []) of
                ((completed, readings, printed), Some e) \<Rightarrow>
                  r\<lparr>main_printed := printed @ fst (import_error e),
                    final_completed := completed, raised := Some (snd (import_error e))\<rparr>
              | ((completed, readings, printed), None) \<Rightarrow>
                  (let elapsed = clock readings - clock 0 in
                   if elapsed = 0
                   then r\<lparr>main_printed := printed @ fst (import_error ZeroDivisionError),
                          final_completed := completed, elapsed_time := Some elapsed,
                          raised := Some (snd (import_error ZeroDivisionError))\<rparr>
                   else r\<lparr>main_printed := printed @
                            [PrintFinished (length all_chunks) elapsed,
                             PrintFinalRate (real (length all_chunks) / elapsed)],
                          final_completed := completed, elapsed_time := Some elapsed\<rparr>)))"

text \<open>The totals at which progress was printed.\<close>

fun progress_total :: "event \<Rightarrow> int option" where
  "progress_total (PrintRate c r) = Some c"
| "progress_total e = None"

definition progress_totals :: "event list \<Rightarrow> int list" where
  "progress_totals out = List.map_filter progress_total out"

text \<open>The totals of the loop that are exact multiples of 5000: \<open>c + j * b\<close> for \<open>j = 1..k\<close>.\<close>

definition hits :: "int \<Rightarrow> int \<Rightarrow> nat \<Rightarrow> int list" where
  "hits c b k = filter (\<lambda>t. t mod 5000 = 0) (map (\<lambda>j. c + int j * b) [Suc 0..<Suc k])"

text \<open>
  The number of chunks in the batches that the sink took, which is what the
  specification calls the completed count.
\<close>

definition accepted_chunks ::
  "(nat \<Rightarrow> chunk_record list \<Rightarrow> py_exception option) \<Rightarrow> chunk_record list list \<Rightarrow> nat" where
  "accepted_chunks sink batches =
     sum_list (map (\<lambda>(n, batch). if sink n batch = None then length batch else 0)
                   (enumerate 0 batches))"

section \<open>Concrete runs\<close>

text \<open>
  Inputs for the examples: a directory of two one-line text files, a PDF of 6000 pages
  with one short line each, a sink that takes every batch, a sink that raises an
  \<open>Exception\<close> on the second batch, a sink that raises \<open>SystemExit\<close> on the second batch,
  a clock that advances by one second per reading, and a clock so coarse
  that every reading of the run is the same.
\<close>

definition two_files :: "source_file list" where
  "two_files = [\<lparr>file_path = ''a.txt'', body = TextBody ''x''\<rparr>,
                \<lparr>file_path = ''b.txt'', body = TextBody ''y''\<rparr>]"

definition big_pdf :: "source_file list" where
  "big_pdf = [\<lparr>file_path = ''big.pdf'', body = PdfBody (replicate 6000 ''x'')\<rparr>]"

definition accept_all :: "nat \<Rightarrow> chunk_record list \<Rightarrow> py_exception option" where
  "accept_all n batch = None"

definition reject_second :: "nat \<Rightarrow> chunk_record list \<Rightarrow> py_exception option" where
  "reject_second n batch = (if n = 1 then Some (OtherException ''rejected'') else None)"

definition abort_second :: "nat \<Rightarrow> chunk_record list \<Rightarrow> py_exception option" where
  "abort_second n batch = (if n = 1 then Some (BaseException ''SystemExit'') else None)"

definition ticking :: "nat \<Rightarrow> real" where
  "ticking k = real k"

definition frozen :: "nat \<Rightarrow> real" where
  "frozen k = 0"

section \<open>Properties of the chunker\<close>

subsection \<open>Content\<close>

lemma content_of_Nil: "content_of [] = []"
  by (simp add: content_of_def)

lemma content_of_Cons: "content_of (c # s) = (if isspace c then content_of s else c # content_of s)"
  by (simp add: content_of_def)

lemma content_of_append: "content_of (a @ b) = content_of a @ content_of b"
  by (simp add: content_of_def)

lemma content_of_dropWhile: "content_of (dropWhile isspace s) = content_of s"
  by (induction s) (simp_all add: content_of_Cons)

lemma content_of_rev: "content_of (rev s) = rev (content_of s)"
  by (simp add: content_of_def rev_filter)

lemma content_of_strip: "content_of (strip s) = content_of s"
  by (simp add: strip_def content_of_rev content_of_dropWhile)

lemma isspace_newline: "isspace (CHR 0x0A)" by (simp add: isspace_def)
lemma isspace_blank: "isspace (CHR 0x20)" by (simp add: isspace_def)

lemmas content_simps = content_of_Nil content_of_Cons content_of_append content_of_strip
  isspace_newline isspace_blank

lemma content_of_split_blank:
  "content_of (concat (split_blank cur s)) = content_of cur @ content_of s"
  by (induction cur s rule: split_blank.induct) (simp_all add: content_simps)

lemma content_of_re_split:
  "content_of (concat (re_split cur s)) = content_of cur @ content_of s"
proof (induction cur s rule: re_split.induct)
  case (1 cur)
  show ?case by (simp add: content_simps)
next
  case (2 cur c cs)
  show ?case
  proof (cases "isspace c \<and> cur \<noteq> [] \<and> sentence_end (last cur)")
    case True
    then have "content_of (concat (re_split cur (c # cs))) = content_of cur @ content_of (dropWhile isspace cs)"
      using 2(1) by (simp add: content_simps)
    also have "\<dots> = content_of cur @ content_of (c # cs)"
      using True by (simp add: content_of_dropWhile content_simps)
    finally show ?thesis .
  next
    case False
    then have "re_split cur (c # cs) = re_split (cur @ [c]) cs" by auto
    then show ?thesis using 2(2)[OF False] by (simp add: content_simps split: if_splits)
  qed
qed

lemma content_of_add_sentences:
  "state_content (add_sentences m ss st) = state_content st @ content_of (concat ss)"
proof (induction m ss st rule: add_sentences.induct)
  case (1 m st)
  show ?case by (simp add: content_simps)
next
  case (2 m sentence rest chunks cur)
  then show ?case
    by (simp add: state_content_def content_simps)
qed

lemma content_of_add_paragraphs:
  "state_content (add_paragraphs m ps st) = state_content st @ content_of (concat ps)"
proof (induction m ps st rule: add_paragraphs.induct)
  case (1 m st)
  show ?case by (simp add: content_simps)
next
  case (2 m p rest chunks cur)
  have empty: "strip p = [] \<Longrightarrow> content_of p = []"
    using content_of_strip[of p] by (simp add: content_of_Nil)
  have sent: "content_of (concat (re_split [] (strip p))) = content_of p"
    by (simp add: content_of_re_split content_simps)
  show ?case
  proof (cases "strip p = []")
    case True
    then show ?thesis using 2(1) empty by (simp add: Let_def content_simps)
  next
    case ne: False
    show ?thesis
    proof (cases "int (length (strip p)) > m")
      case True
      then show ?thesis using ne 2(2)
        by (simp add: Let_def content_of_add_sentences sent content_simps)
    next
      case short: False
      show ?thesis
      proof (cases "int (length cur) + int (length (strip p)) \<le> m")
        case True
        then show ?thesis using ne short 2(3)
          by (simp add: Let_def state_content_def content_simps)
      next
        case False
        then show ?thesis using ne short 2(4)
          by (simp add: Let_def state_content_def content_simps)
      qed
    qed
  qed
qed

text \<open>
  C3: for every text and every \<open>max_chunk_size\<close>, the chunks concatenated in order,
  whitespace ignored, are the text with its whitespace ignored: no character that is
  not whitespace is lost, duplicated or moved.
\<close>

theorem chunks_preserve_content:
  "content_of (concat (split_text_into_chunks text m)) = content_of text"
proof -
  obtain chunks cur where st: "add_paragraphs m (split_blank [] text) ([], []) = (chunks, cur)"
    by (cases "add_paragraphs m (split_blank [] text) ([], [])")
  have "state_content (chunks, cur) = content_of text"
    using content_of_add_paragraphs[of m "split_blank [] text" "([], [])"] st
    by (simp add: content_of_split_blank state_content_def content_simps)
  then show ?thesis
    by (auto simp: split_text_into_chunks_def st state_content_def content_simps)
qed

subsection \<open>Shape of the chunks\<close>

lemma starts_clean_dropWhile: "starts_clean (dropWhile isspace s)"
  by (cases "dropWhile isspace s = []")
     (simp_all add: starts_clean_def hd_dropWhile del: dropWhile_eq_Nil_conv)

lemma last_dropWhile_keep: "dropWhile P xs \<noteq> [] \<Longrightarrow> last (dropWhile P xs) = last xs"
  by (induction xs) (auto split: if_splits)

lemma strip_ends:
  assumes "strip s \<noteq> []"
  shows "\<not> isspace (hd (strip s))" and "\<not> isspace (last (strip s))"
proof -
  let ?t = "dropWhile isspace s"
  let ?u = "dropWhile isspace (rev ?t)"
  from assms have u: "?u \<noteq> []" by (simp add: strip_def)
  have t: "?t \<noteq> []"
  proof
    assume "?t = []"
    then have "?u = []" by (simp only: rev.simps dropWhile.simps)
    with u show False by blast
  qed
  have "hd (strip s) = last ?u" using u by (simp add: strip_def hd_rev)
  also have "\<dots> = last (rev ?t)" using u by (rule last_dropWhile_keep)
  also have "\<dots> = hd ?t" using t by (simp add: last_rev)
  finally show "\<not> isspace (hd (strip s))" using t by (simp add: hd_dropWhile)
  have "last (strip s) = hd ?u" using u by (simp add: strip_def last_rev)
  then show "\<not> isspace (last (strip s))" using u by (simp add: hd_dropWhile)
qed

lemma strip_clean_id:
  assumes "s = [] \<or> (\<not> isspace (hd s) \<and> \<not> isspace (last s))"
  shows "strip s = s"
proof (cases s)
  case Nil
  then show ?thesis by (simp add: strip_def)
next
  case (Cons a as)
  with assms have h: "\<not> isspace a" and l: "\<not> isspace (last s)" by auto
  have "dropWhile isspace s = s" using Cons h by simp
  moreover have "dropWhile isspace (rev s) = rev s"
    using Cons l by (cases "rev s") (auto simp: hd_rev[symmetric])
  ultimately show ?thesis by (simp add: strip_def)
qed

lemma strip_idem: "strip (strip s) = strip s"
  using strip_ends[of s] by (intro strip_clean_id) auto

lemma strip_nonempty:
  assumes "s \<noteq> []" and "\<not> isspace (hd s)"
  shows "strip s \<noteq> []"
proof -
  have "dropWhile isspace s = s" using assms by (cases s) auto
  moreover have "hd s \<in> set (rev s)" using assms by simp
  then have "dropWhile isspace (rev s) \<noteq> []"
    using assms(2) by (auto simp: dropWhile_eq_Nil_conv)
  ultimately show ?thesis by (simp add: strip_def)
qed

lemma starts_clean_strip: "starts_clean (strip s)"
  using strip_ends(1)[of s] by (auto simp: starts_clean_def)

lemma re_split_starts_clean:
  "starts_clean cur \<Longrightarrow> (cur = [] \<Longrightarrow> starts_clean s) \<Longrightarrow> x \<in> set (re_split cur s) \<Longrightarrow> starts_clean x"
proof (induction cur s rule: re_split.induct)
  case (1 cur)
  then show ?case by simp
next
  case (2 cur c cs)
  show ?case
  proof (cases "isspace c \<and> cur \<noteq> [] \<and> sentence_end (last cur)")
    case True
    then have "x = cur \<or> x \<in> set (re_split [] (dropWhile isspace cs))"
      using 2(5) by simp
    then show ?thesis
      using 2(1)[OF True] 2(3) starts_clean_dropWhile[of cs] by (auto simp: starts_clean_def)
  next
    case False
    then have x: "x \<in> set (re_split (cur @ [c]) cs)" using 2(5) by auto
    have "starts_clean (cur @ [c])"
      using 2(3,4) by (cases cur) (auto simp: starts_clean_def)
    then show ?thesis using 2(2)[OF False] x by simp
  qed
qed

lemma chunk_ok_strip: "cur \<noteq> [] \<Longrightarrow> starts_clean cur \<Longrightarrow> chunk_ok (strip cur)"
  by (simp add: chunk_ok_def strip_idem strip_nonempty starts_clean_def)

lemma starts_clean_join: "cur \<noteq> [] \<Longrightarrow> starts_clean cur \<Longrightarrow> starts_clean (cur @ sep @ s)"
  by (cases cur) (auto simp: starts_clean_def)

lemma add_sentences_ok:
  "state_ok st \<Longrightarrow> list_all starts_clean ss \<Longrightarrow> state_ok (add_sentences m ss st)"
proof (induction m ss st rule: add_sentences.induct)
  case (1 m st)
  then show ?case by simp
next
  case (2 m sentence rest chunks cur)
  from 2(3,4) have pre: "list_all chunk_ok chunks" "starts_clean cur"
      "starts_clean sentence" "list_all starts_clean rest"
    by (simp_all add: state_ok_def)
  show ?case
  proof (cases "int (length cur) + int (length sentence) \<le> m")
    case True
    have "state_ok (chunks, if cur \<noteq> [] then cur @ '' '' @ sentence else sentence)"
      using pre starts_clean_join[of cur "'' ''" sentence] by (simp add: state_ok_def)
    then show ?thesis using True 2(1) pre by simp
  next
    case False
    have "state_ok (if cur \<noteq> [] then chunks @ [strip cur] else chunks, sentence)"
      using pre chunk_ok_strip[of cur] by (simp add: state_ok_def)
    then show ?thesis using False 2(2) pre by simp
  qed
qed

lemma add_paragraphs_ok:
  "state_ok st \<Longrightarrow> state_ok (add_paragraphs m ps st)"
proof (induction m ps st rule: add_paragraphs.induct)
  case (1 m st)
  then show ?case by simp
next
  case (2 m p rest chunks cur)
  from 2(5) have pre: "list_all chunk_ok chunks" "starts_clean cur"
    by (simp_all add: state_ok_def)
  show ?case
  proof (cases "strip p = []")
    case True
    then show ?thesis using 2(1) 2(5) by (simp add: Let_def)
  next
    case ne: False
    show ?thesis
    proof (cases "int (length (strip p)) > m")
      case True
      have "list_all starts_clean (re_split [] (strip p))"
        using re_split_starts_clean[of "[]" "strip p"] starts_clean_strip[of p]
        by (auto simp: list_all_iff starts_clean_def)
      then have "state_ok (add_sentences m (re_split [] (strip p)) (chunks, cur))"
        using 2(5) by (rule add_sentences_ok[rotated])
      then show ?thesis using ne True 2(2) by (simp add: Let_def)
    next
      case short: False
      show ?thesis
      proof (cases "int (length cur) + int (length (strip p)) \<le> m")
        case True
        have "state_ok (chunks, if cur \<noteq> [] then cur @ [CHR 0x0A, CHR 0x0A] @ strip p else strip p)"
          using pre starts_clean_join[of cur "[CHR 0x0A, CHR 0x0A]" "strip p"] starts_clean_strip[of p]
          by (simp add: state_ok_def)
        then show ?thesis using ne short True 2(3) by (simp add: Let_def)
      next
        case False
        with short have "cur \<noteq> []" by auto
        then have "state_ok (chunks @ [strip cur], strip p)"
          using pre chunk_ok_strip[of cur] starts_clean_strip[of p] by (simp add: state_ok_def)
        then show ?thesis using ne short False 2(4) by (simp add: Let_def)
      qed
    qed
  qed
qed

lemma split_chunks_ok: "list_all chunk_ok (split_text_into_chunks text m)"
proof -
  obtain chunks cur where st: "add_paragraphs m (split_blank [] text) ([], []) = (chunks, cur)"
    by (cases "add_paragraphs m (split_blank [] text) ([], [])")
  have "state_ok ([], [])" by (simp add: state_ok_def starts_clean_def)
  then have "state_ok (chunks, cur)"
    using add_paragraphs_ok[of "([], [])" m "split_blank [] text"] st by simp
  then have ok: "list_all chunk_ok chunks" "starts_clean cur" by (simp_all add: state_ok_def)
  show ?thesis
    using ok chunk_ok_strip[of cur] by (simp add: split_text_into_chunks_def st)
qed

text \<open>
  C9: every chunk returned by \<open>split_text_into_chunks\<close> is non-empty and equals its
  own \<open>strip()\<close>. This holds for every \<open>max_chunk_size\<close>, the positive ones included.
\<close>

theorem chunks_nonempty_stripped:
  "c \<in> set (split_text_into_chunks text m) \<Longrightarrow> c \<noteq> [] \<and> strip c = c"
  using split_chunks_ok [of "text" m] by (auto simp: list_all_iff chunk_ok_def)

text \<open>
  C9 at a paragraph of five sentences with \<open>max_chunk_size = 6\<close>.
\<close>

theorem chunks_nonempty_stripped_witness:
  "''Hi. Yo.'' \<in> set (split_text_into_chunks ''Hi. Yo. Abcdefgh. No! ok'' 6)
   \<and> ''Hi. Yo.'' \<noteq> [] \<and> strip ''Hi. Yo.'' = ''Hi. Yo.''"
proof -
  have h: "''Hi. Yo.'' \<in> set (split_text_into_chunks ''Hi. Yo. Abcdefgh. No! ok'' 6)"
    by (simp add: split_text_into_chunks_def strip_def isspace_def sentence_end_def)
  show ?thesis using h chunks_nonempty_stripped [OF h] by simp
qed

subsection \<open>The two-paragraph scenario\<close>

text \<open>
  C4, as the specification states it: the text of two short paragraphs with
  \<open>max_chunk_size = 60\<close> gives two chunks. The paragraphs have 9 and 41 characters,
  so the second one still fits the buffer and the chunker returns one chunk.
\<close>

theorem two_paragraphs_not_two_chunks:
  "length (split_text_into_chunks
     (''Para one.'' @ [CHR 0x0A, CHR 0x0A] @ ''Para two is a bit longer but still short.'') 60) \<noteq> 2"
  by (simp add: split_text_into_chunks_def strip_def isspace_def)

text \<open>
  C4, amended: on that input the chunker returns exactly one chunk, the whole text
  verbatim, that is both paragraphs joined by the blank line.
\<close>

theorem two_paragraphs_one_chunk:
  "split_text_into_chunks
     (''Para one.'' @ [CHR 0x0A, CHR 0x0A] @ ''Para two is a bit longer but still short.'') 60
   = [''Para one.'' @ [CHR 0x0A, CHR 0x0A] @ ''Para two is a bit longer but still short.'']"
  by (simp add: split_text_into_chunks_def strip_def isspace_def)

subsection \<open>The size of a chunk\<close>

lemma sentence_end_not_space: "sentence_end c \<Longrightarrow> \<not> isspace c"
  by (auto simp: sentence_end_def isspace_def)

lemma ends_clean_dropWhile:
  assumes "ends_clean (cur @ c # cs)" and "isspace c"
  shows "ends_clean (dropWhile isspace cs)"
proof (cases "dropWhile isspace cs = []")
  case True
  then show ?thesis by (simp add: ends_clean_def)
next
  case False
  then have "cs \<noteq> []" by auto
  then have "\<not> isspace (last cs)" using assms(1) by (simp add: ends_clean_def)
  then show ?thesis using False last_dropWhile_keep[OF False] by (simp add: ends_clean_def)
qed

lemma re_split_ends_clean:
  "ends_clean (cur @ s) \<Longrightarrow> x \<in> set (re_split cur s) \<Longrightarrow> ends_clean x"
proof (induction cur s rule: re_split.induct)
  case (1 cur)
  then show ?case by simp
next
  case (2 cur c cs)
  show ?case
  proof (cases "isspace c \<and> cur \<noteq> [] \<and> sentence_end (last cur)")
    case True
    then have "x = cur \<or> x \<in> set (re_split [] (dropWhile isspace cs))"
      using 2(4) by simp
    then show ?thesis
    proof
      assume "x = cur"
      then show ?thesis using True by (simp add: ends_clean_def sentence_end_not_space)
    next
      assume x: "x \<in> set (re_split [] (dropWhile isspace cs))"
      have "ends_clean ([] @ dropWhile isspace cs)"
        using ends_clean_dropWhile[OF 2(3)] True by simp
      then show ?thesis using 2(1)[OF True] x by simp
    qed
  next
    case False
    then have x: "x \<in> set (re_split (cur @ [c]) cs)" using 2(4) by auto
    have "ends_clean ((cur @ [c]) @ cs)" using 2(3) by simp
    then show ?thesis using 2(2)[OF False] x by simp
  qed
qed

lemma ends_clean_strip: "ends_clean (strip s)"
  using strip_ends(2)[of s] by (auto simp: ends_clean_def)

lemma sentence_stripped:
  assumes "x \<in> set (re_split [] (strip p))"
  shows "strip x = x"
proof -
  have "starts_clean x"
    using re_split_starts_clean[of "[]" "strip p" x] starts_clean_strip[of p] assms
    by (simp add: starts_clean_def)
  moreover have "ends_clean x"
    using re_split_ends_clean[of "[]" "strip p" x] ends_clean_strip[of p] assms by simp
  ultimately show ?thesis by (intro strip_clean_id) (auto simp: starts_clean_def ends_clean_def)
qed

lemma unit_stripped: "u \<in> set (source_units text) \<Longrightarrow> strip u = u"
  by (auto simp: source_units_def sentence_stripped)

lemma length_strip_le: "length (strip s) \<le> length s"
proof -
  have "length (strip s) \<le> length (dropWhile isspace s)"
    using length_dropWhile_le[of isspace "rev (dropWhile isspace s)"] by (simp add: strip_def)
  also have "\<dots> \<le> length s" by (rule length_dropWhile_le)
  finally show ?thesis .
qed

lemma fits_strip:
  assumes "fits m U cur" and "\<And>u. u \<in> U \<Longrightarrow> strip u = u"
  shows "fits m U (strip cur)"
proof (cases "cur \<in> U")
  case True
  then show ?thesis using assms(2) by (simp add: fits_def)
next
  case False
  then have "cur = [] \<or> int (length cur) \<le> m + 2" using assms(1) by (simp add: fits_def)
  then show ?thesis
  proof
    assume "cur = []"
    then show ?thesis by (simp add: fits_def strip_def)
  next
    assume "int (length cur) \<le> m + 2"
    then show ?thesis using length_strip_le[of cur] by (simp add: fits_def)
  qed
qed

lemma add_sentences_fits:
  assumes "\<And>u. u \<in> U \<Longrightarrow> strip u = u"
  shows "state_fits m U st \<Longrightarrow> set ss \<subseteq> U \<Longrightarrow> state_fits m U (add_sentences m ss st)"
proof (induction m ss st rule: add_sentences.induct)
  case (1 m st)
  then show ?case by simp
next
  case (2 m sentence rest chunks cur)
  from 2(3,4) have pre: "list_all (fits m U) chunks" "fits m U cur" "sentence \<in> U" "set rest \<subseteq> U"
    by (simp_all add: state_fits_def)
  show ?case
  proof (cases "int (length cur) + int (length sentence) \<le> m")
    case True
    then have "fits m U (cur @ '' '' @ sentence)" by (simp add: fits_def)
    then have "state_fits m U (chunks, if cur \<noteq> [] then cur @ '' '' @ sentence else sentence)"
      using pre by (simp add: state_fits_def fits_def)
    then show ?thesis using True 2(1) pre by simp
  next
    case False
    have "state_fits m U (if cur \<noteq> [] then chunks @ [strip cur] else chunks, sentence)"
      using pre fits_strip[OF pre(2) assms] by (simp add: state_fits_def fits_def)
    then show ?thesis using False 2(2) pre by simp
  qed
qed

lemma add_paragraphs_fits:
  assumes "\<And>u. u \<in> U \<Longrightarrow> strip u = u"
  shows "state_fits m U st \<Longrightarrow>
    (\<And>p. p \<in> set ps \<Longrightarrow> strip p \<noteq> [] \<Longrightarrow> set (re_split [] (strip p)) \<subseteq> U) \<Longrightarrow>
    state_fits m U (add_paragraphs m ps st)"
proof (induction m ps st rule: add_paragraphs.induct)
  case (1 m st)
  then show ?case by simp
next
  case (2 m p rest chunks cur)
  from 2(5) have pre: "list_all (fits m U) chunks" "fits m U cur"
    by (simp_all add: state_fits_def)
  have rest: "\<And>q. q \<in> set rest \<Longrightarrow> strip q \<noteq> [] \<Longrightarrow> set (re_split [] (strip q)) \<subseteq> U"
    using 2(6) by simp
  show ?case
  proof (cases "strip p = []")
    case True
    then show ?thesis using 2(1)[OF _ _ 2(5) rest] by (simp add: Let_def)
  next
    case ne: False
    show ?thesis
    proof (cases "int (length (strip p)) > m")
      case True
      have "set (re_split [] (strip p)) \<subseteq> U" using 2(6)[of p] ne by simp
      then have "state_fits m U (add_sentences m (re_split [] (strip p)) (chunks, cur))"
        using add_sentences_fits[OF assms 2(5)] by simp
      then show ?thesis using ne True 2(2)[OF _ ne True _ rest] by (simp add: Let_def)
    next
      case short: False
      show ?thesis
      proof (cases "int (length cur) + int (length (strip p)) \<le> m")
        case True
        have "state_fits m U (chunks, if cur \<noteq> [] then cur @ [CHR 0x0A, CHR 0x0A] @ strip p else strip p)"
          using pre True short by (simp add: state_fits_def fits_def)
        then show ?thesis using ne short True 2(3)[OF _ ne short True _ rest] by (simp add: Let_def)
      next
        case False
        have "state_fits m U (chunks @ [strip cur], strip p)"
          using pre short fits_strip[OF pre(2) assms] by (simp add: state_fits_def fits_def)
        then show ?thesis using ne short False 2(4)[OF _ ne short False _ rest] by (simp add: Let_def)
      qed
    qed
  qed
qed

text \<open>
  What the chunker does guarantee: a chunk is at most two characters (the longest
  separator) longer than \<open>max_chunk_size\<close>, or it is a single unit of the text that is
  longer than \<open>max_chunk_size\<close>.
\<close>

lemma chunk_size_bound:
  assumes "c \<in> set (split_text_into_chunks text m)"
  shows "int (length c) \<le> m + 2 \<or> (c \<in> set (source_units text) \<and> m < int (length c))"
proof -
  let ?U = "set (source_units text)"
  obtain chunks cur where st: "add_paragraphs m (split_blank [] text) ([], []) = (chunks, cur)"
    by (cases "add_paragraphs m (split_blank [] text) ([], [])")
  have stripped: "\<And>u. u \<in> ?U \<Longrightarrow> strip u = u" by (rule unit_stripped)
  have units: "\<And>p. p \<in> set (split_blank [] text) \<Longrightarrow> strip p \<noteq> [] \<Longrightarrow>
      set (re_split [] (strip p)) \<subseteq> ?U"
    by (auto simp: source_units_def)
  have init: "state_fits m ?U ([], [])" by (simp add: state_fits_def fits_def)
  have "state_fits m ?U (add_paragraphs m (split_blank [] text) ([], []))"
    using stripped init units by (rule add_paragraphs_fits)
  then have "state_fits m ?U (chunks, cur)" using st by simp
  then have ok: "list_all (fits m ?U) chunks" "fits m ?U cur" by (simp_all add: state_fits_def)
  have "list_all (fits m ?U) (split_text_into_chunks text m)"
    using ok fits_strip[OF ok(2) stripped] by (simp add: split_text_into_chunks_def st)
  with assms have "fits m ?U c" by (auto simp: list_all_iff)
  moreover have "c \<noteq> []"
    using split_chunks_ok [of "text" m] assms by (auto simp: list_all_iff chunk_ok_def)
  ultimately show ?thesis by (auto simp: fits_def)
qed

text \<open>
  C1 says that every chunk is at most \<open>max_chunk_size\<close> long unless it is a single
  indivisible unit that is longer. At the text of the two paragraphs \<open>ab\<close> and \<open>cd\<close>
  with \<open>max_chunk_size = 4\<close> the test \<open>len(current_chunk) + len(paragraph) <=
  max_chunk_size\<close> leaves the separator out, so the chunker returns one chunk of 6
  characters, which is none of the units of the text.
\<close>

theorem joined_chunk_exceeds_max:
  "split_text_into_chunks (''ab'' @ [CHR 0x0A, CHR 0x0A] @ ''cd'') 4
     = [''ab'' @ [CHR 0x0A, CHR 0x0A] @ ''cd'']
   \<and> int (length (''ab'' @ [CHR 0x0A, CHR 0x0A] @ ''cd'')) > 4
   \<and> source_units (''ab'' @ [CHR 0x0A, CHR 0x0A] @ ''cd'') = [''ab'', ''cd'']"
  by (simp add: split_text_into_chunks_def source_units_def strip_def isspace_def)

section \<open>Properties of the batch assembly\<close>

declare range_from.simps [simp del]

lemma py_slice_window:
  assumes "0 \<le> i" and "0 < b"
  shows "py_slice xs i (i + b) = take (nat b) (drop (nat i) xs)"
proof (cases "i \<le> int (length xs)")
  case True
  have "take (nat (min (i + b) (int (length xs)) - i)) (drop (nat i) xs) = take (nat b) (drop (nat i) xs)"
  proof (cases "i + b \<le> int (length xs)")
    case True
    then show ?thesis by (simp add: min_def)
  next
    case False
    then have "nat (int (length xs) - i) = length (drop (nat i) xs)"
      using assms by simp
    moreover have "length (drop (nat i) xs) \<le> nat b"
      using False assms by simp
    ultimately show ?thesis using False by (simp add: min_def)
  qed
  then show ?thesis using True assms by (simp add: py_slice_def Let_def min_def)
next
  case False
  then show ?thesis using assms by (simp add: py_slice_def Let_def min_def)
qed

lemma concat_windows:
  assumes "0 < b"
  shows "0 \<le> i \<Longrightarrow> stop = int (length xs) \<Longrightarrow>
    concat (map (\<lambda>j. py_slice xs j (j + b)) (range_from i stop b)) = drop (nat i) xs"
  using assms
proof (induction i stop b rule: range_from.induct)
  case (1 i stop step)
  show ?case
  proof (cases "i < stop")
    case True
    then have unfold: "range_from i stop step = i # range_from (i + step) stop step"
      using 1(4) by (subst range_from.simps) simp
    have ih: "concat (map (\<lambda>j. py_slice xs j (j + step)) (range_from (i + step) stop step))
        = drop (nat (i + step)) xs"
      using 1 True by simp
    have "nat (i + step) = nat step + nat i" using 1(2,4) by simp
    then have "take (nat step) (drop (nat i) xs) @ drop (nat (i + step)) xs = drop (nat i) xs"
      using append_take_drop_id[of "nat step" "drop (nat i) xs"] by (simp only: drop_drop)
    then show ?thesis
      using unfold ih py_slice_window[OF 1(2) 1(4), of xs] by simp
  next
    case False
    then have "range_from i stop step = []"
      using 1(4) by (subst range_from.simps) simp
    then show ?thesis using False 1(2,3) by simp
  qed
qed

lemma length_range_from:
  assumes "0 < b"
  shows "int (length (range_from i stop b)) = (if i < stop then (stop - i + b - 1) div b else 0)"
  using assms
proof (induction i stop b rule: range_from.induct)
  case (1 i stop step)
  show ?case
  proof (cases "i < stop")
    case True
    then have unfold: "range_from i stop step = i # range_from (i + step) stop step"
      using 1(2) by (subst range_from.simps) simp
    have ih: "int (length (range_from (i + step) stop step))
        = (if i + step < stop then (stop - (i + step) + step - 1) div step else 0)"
      using 1 True by simp
    have a: "(stop - i + step - 1) div step = (stop - i - 1) div step + 1"
      using 1(2) by (metis add.commute add_diff_eq diff_add_eq div_add_self1 less_irrefl)
    show ?thesis
    proof (cases "i + step < stop")
      case True
      then show ?thesis using unfold ih a \<open>i < stop\<close> by simp
    next
      case False
      then have "0 \<le> stop - i - 1" "stop - i - 1 < step" using \<open>i < stop\<close> by simp_all
      then have "(stop - i - 1) div step = 0" by simp
      then show ?thesis using unfold ih a False \<open>i < stop\<close> by simp
    qed
  next
    case False
    then have "range_from i stop step = []"
      using 1(2) by (subst range_from.simps) simp
    then show ?thesis using False by simp
  qed
qed

lemma nth_range_from:
  assumes "0 < b"
  shows "k < length (range_from i stop b) \<Longrightarrow> range_from i stop b ! k = i + int k * b"
  using assms
proof (induction i stop b arbitrary: k rule: range_from.induct)
  case (1 i stop step)
  show ?case
  proof (cases "i < stop")
    case True
    then have unfold: "range_from i stop step = i # range_from (i + step) stop step"
      using 1(3) by (subst range_from.simps) simp
    show ?thesis
    proof (cases k)
      case 0
      then show ?thesis using unfold by simp
    next
      case (Suc k')
      then have "k' < length (range_from (i + step) stop step)" using 1(2) unfold by simp
      then have "range_from (i + step) stop step ! k' = i + step + int k' * step"
        using 1(1)[of k'] True 1(3) by simp
      then show ?thesis using unfold Suc by (simp add: algebra_simps)
    qed
  next
    case False
    then have "range_from i stop step = []"
      using 1(3) by (subst range_from.simps) simp
    then show ?thesis using 1(2) by simp
  qed
qed

lemma assemble_positive:
  "0 < b \<Longrightarrow> assemble xs b = Inr (map (\<lambda>i. py_slice xs i (i + b)) (range_from 0 (int (length xs)) b))"
  by (simp add: assemble_def py_range_def)

lemma concat_assemble:
  "0 < b \<Longrightarrow> assemble xs b = Inr batches \<Longrightarrow> concat batches = xs"
  using concat_windows[of b 0 "int (length xs)" xs] by (auto simp: assemble_positive)

lemma length_assemble:
  "0 < b \<Longrightarrow> assemble xs b = Inr batches \<Longrightarrow>
     int (length batches) = (int (length xs) + b - 1) div b"
  using length_range_from[of b 0 "int (length xs)"] by (auto simp: assemble_positive)

lemma div_round_up:
  assumes "0 < (b::int)"
  shows "(n + b - 1) div b = (if n mod b = 0 then n div b else n div b + 1)"
proof (cases "n mod b = 0")
  case True
  have "n = b * (n div b) + n mod b" by simp
  then have "n + b - 1 = b * (n div b) + (b - 1)" using True by simp
  moreover have "0 \<le> b - 1" "b - 1 < b" using assms by simp_all
  ultimately have "(n + b - 1) div b = n div b" by (rule int_div_pos_eq)
  then show ?thesis using True by simp
next
  case False
  have "0 \<le> n mod b" "n mod b < b" using assms by simp_all
  with False have r: "0 \<le> n mod b - 1" "n mod b - 1 < b" by linarith+
  have "n = b * (n div b) + n mod b" by simp
  then have "n + b - 1 = b * (n div b + 1) + (n mod b - 1)" by (simp add: algebra_simps)
  then have "(n + b - 1) div b = n div b + 1" using r by (rule int_div_pos_eq)
  then show ?thesis using False by simp
qed

lemma ceiling_as_div:
  assumes "0 < (b::int)"
  shows "\<lceil>real_of_int n / real_of_int b\<rceil> = (n + b - 1) div b"
proof -
  have "\<lceil>real_of_int n / real_of_int b\<rceil> = - (- n div b)" by (rule ceiling_divide_eq_div)
  also have "\<dots> = (n + b - 1) div b"
    using assms by (simp add: div_round_up zdiv_zminus1_eq_if)
  finally show ?thesis .
qed

lemma window_size:
  assumes "0 < (b::int)" and "0 \<le> q" and "0 \<le> r" and "r < b"
    and "int (length xs) = b * q + r" and "int k < (if r = 0 then q else q + 1)"
  shows "int (length (take (nat b) (drop (nat (int k * b)) xs)))
     = (if int k + 1 < (if r = 0 then q else q + 1) then b else if r = 0 then b else r)"
proof -
  have kq: "int k \<le> q" using assms(6) by (simp split: if_splits)
  then have "int k * b \<le> q * b" using assms(1) by (simp add: mult_right_mono)
  then have le: "int k * b \<le> int (length xs)" using assms(3,5) by (simp add: mult.commute)
  have "0 \<le> int k * b" using assms(1) by simp
  then have "int (length (drop (nat (int k * b)) xs)) = b * (q - int k) + r"
    using le assms(5) by (simp add: algebra_simps)
  then have len: "int (length (take (nat b) (drop (nat (int k * b)) xs))) = min b (b * (q - int k) + r)"
    using assms(1) by (simp add: min_def) linarith
  show ?thesis
  proof (cases "int k < q")
    case True
    then have "b * 1 \<le> b * (q - int k)" using assms(1) by (intro mult_left_mono) simp_all
    then have "b \<le> b * (q - int k) + r" using assms(3) by simp
    then have "min b (b * (q - int k) + r) = b" by simp
    moreover have "r = 0 \<and> int k + 1 = q \<or> int k + 1 < (if r = 0 then q else q + 1)"
      using True by auto
    ultimately show ?thesis unfolding len by auto
  next
    case False
    with kq have k: "int k = q" by simp
    then have r: "r \<noteq> 0" using assms(6) by (simp split: if_splits)
    have "min b (b * (q - int k) + r) = r" using k assms(4) by simp
    then show ?thesis unfolding len using k r by simp
  qed
qed

lemma nth_assemble:
  assumes "0 < b" and "assemble xs b = Inr batches" and "k < length batches"
  shows "batches ! k = take (nat b) (drop (nat (int k * b)) xs)"
proof -
  have b: "batches = map (\<lambda>i. py_slice xs i (i + b)) (range_from 0 (int (length xs)) b)"
    using assms(1,2) by (simp add: assemble_positive)
  then have k: "k < length (range_from 0 (int (length xs)) b)" using assms(3) by simp
  then have "batches ! k = py_slice xs (int k * b) (int k * b + b)"
    using b nth_range_from[OF assms(1) k] by simp
  then show ?thesis using py_slice_window[of "int k * b" b xs] assms(1) by simp
qed

lemma batch_sizes:
  assumes "0 < b" and "assemble xs b = Inr batches" and "k < length batches"
  shows "int (length (batches ! k)) =
     (if Suc k < length batches then b
      else if int (length xs) mod b = 0 then b else int (length xs) mod b)"
proof -
  let ?n = "int (length xs)"
  let ?q = "?n div b" and ?r = "?n mod b"
  have L: "int (length batches) = (if ?r = 0 then ?q else ?q + 1)"
    using length_assemble[OF assms(1,2)] div_round_up[OF assms(1), of ?n] by simp
  have "0 \<le> ?q" using assms(1) by (simp add: pos_imp_zdiv_nonneg_iff)
  moreover have "0 \<le> ?r" "?r < b" using assms(1) by simp_all
  moreover have "?n = b * ?q + ?r" by simp
  moreover have "int k < (if ?r = 0 then ?q else ?q + 1)" using assms(3) L by linarith
  ultimately have "int (length (take (nat b) (drop (nat (int k * b)) xs)))
     = (if int k + 1 < (if ?r = 0 then ?q else ?q + 1) then b else if ?r = 0 then b else ?r)"
    using assms(1) by (intro window_size) 
  moreover have "Suc k < length batches \<longleftrightarrow> int k + 1 < (if ?r = 0 then ?q else ?q + 1)"
    using L by linarith
  ultimately show ?thesis using nth_assemble[OF assms] by simp
qed

text \<open>
  C5: for a sequence of \<open>N\<close> chunks and a batch size \<open>B > 0\<close> the assembly returns
  \<open>ceil(N / B)\<close> batches; every batch but the last has \<open>B\<close> chunks, the last one has
  \<open>N mod B\<close> chunks, or \<open>B\<close> when \<open>B\<close> divides \<open>N\<close>; and the batches concatenated in
  order are the input sequence.
\<close>

theorem assemble_partitions:
  assumes "0 < batch_size"
  shows "\<exists>batches. assemble all_chunks batch_size = Inr batches
    \<and> int (length batches) = \<lceil>real (length all_chunks) / real_of_int batch_size\<rceil>
    \<and> (\<forall>k < length batches. int (length (batches ! k)) =
         (if Suc k < length batches then batch_size
          else if int (length all_chunks) mod batch_size = 0 then batch_size
          else int (length all_chunks) mod batch_size))
    \<and> concat batches = all_chunks"
proof -
  obtain batches where b: "assemble all_chunks batch_size = Inr batches"
    using assms by (simp add: assemble_positive)
  have "int (length batches) = \<lceil>real (length all_chunks) / real_of_int batch_size\<rceil>"
    using length_assemble[OF assms b] ceiling_as_div[OF assms, of "int (length all_chunks)"] by simp
  moreover have "concat batches = all_chunks" using assms b by (rule concat_assemble)
  ultimately show ?thesis using b batch_sizes[OF assms b] by blast
qed

text \<open>
  C5 at seven items and a batch size of 3: batches of 3, 3 and 1.
\<close>

theorem assemble_partitions_witness:
  "(0::int) < 3 \<and> (\<exists>batches. assemble [1, 2, 3, 4, 5, 6, 7 :: nat] 3 = Inr batches
    \<and> int (length batches) = \<lceil>real (length [1, 2, 3, 4, 5, 6, 7 :: nat]) / real_of_int 3\<rceil>
    \<and> (\<forall>k < length batches. int (length (batches ! k)) =
         (if Suc k < length batches then 3
          else if int (length [1, 2, 3, 4, 5, 6, 7 :: nat]) mod 3 = 0 then 3
          else int (length [1, 2, 3, 4, 5, 6, 7 :: nat]) mod 3))
    \<and> concat batches = [1, 2, 3, 4, 5, 6, 7])"
proof -
  have h: "(0::int) < 3" by simp
  show ?thesis using h assemble_partitions [OF h, of "[1, 2, 3, 4, 5, 6, 7 :: nat]"] by blast
qed

section \<open>Properties of the run\<close>

lemma snd_process_batch:
  "snd (process_batch sink chunks) =
     (case sink chunks of
        None \<Rightarrow> Inr ()
      | Some e \<Rightarrow>
          if is_exception e
          then (case print_raises e of None \<Rightarrow> Inr () | Some e' \<Rightarrow> Inl e')
          else Inl e)"
  by (simp add: process_batch_def submit_objects_def split: option.split)

lemma progress_totals_import_error: "progress_totals (fst (import_error e)) = []"
  by (simp add: import_error_def progress_totals_def List.map_filter_def split: option.split)

lemma import_error_printable:
  "import_error ValueError = ([PrintImportError ValueError], ValueError)"
  "import_error ZeroDivisionError = ([PrintImportError ZeroDivisionError], ZeroDivisionError)"
  by (simp_all add: import_error_def)

lemma progress_totals_append:
  "progress_totals (a @ b) = progress_totals a @ progress_totals b"
  by (simp add: progress_totals_def List.map_filter_def)

lemma progress_totals_simps:
  "progress_totals [] = []"
  "progress_totals [PrintRate c r] = [c]"
  "progress_totals [PrintImportError e] = []"
  "progress_totals [PrintFinished n t, PrintFinalRate r] = []"
  by (simp_all add: progress_totals_def List.map_filter_def)

lemma hits_0: "hits c b 0 = []"
  by (simp add: hits_def)

lemma hits_Suc:
  "hits c b (Suc k) = (if (c + b) mod 5000 = 0 then [c + b] else []) @ hits (c + b) b k"
proof -
  have "[Suc 0..<Suc (Suc k)] = Suc 0 # map Suc [Suc 0..<Suc k]"
    by (simp add: upt_conv_Cons map_Suc_upt del: upt_Suc)
  then have "map (\<lambda>j. c + int j * b) [Suc 0..<Suc (Suc k)]
      = (c + b) # map (\<lambda>j. (c + b) + int j * b) [Suc 0..<Suc k]"
    by (simp add: o_def algebra_simps del: upt_Suc)
  then show ?thesis unfolding hits_def by simp
qed

lemma collect_returns:
  "collect b clock fs (c, n, out) = ((c', n', out'), None) \<Longrightarrow>
     c' = c + int (length fs) * b \<and>
     progress_totals out' = progress_totals out @ hits c b (length fs)"
proof (induction fs arbitrary: c n out)
  case Nil
  then show ?case by (simp add: hits_0)
next
  case (Cons f fs)
  have step: "c + b + int (length fs) * b = c + int (length (f # fs)) * b"
    by (simp add: algebra_simps)
  have len: "length (f # fs) = Suc (length fs)" by simp
  from Cons.prems obtain u where f: "f = Inr u" by (cases f) simp_all
  show ?case
  proof (cases "(c + b) mod 5000 = 0")
    case hit: True
    then have moving: "clock n - clock 0 \<noteq> 0"
      using Cons.prems f by (auto simp: Let_def)
    then have "collect b clock fs
        (c + b, Suc n, out @ [PrintRate (c + b) (of_int (c + b) / (clock n - clock 0))])
        = ((c', n', out'), None)"
      using Cons.prems f hit by (simp add: Let_def)
    from Cons.IH[OF this] show ?thesis
      unfolding step len hits_Suc[of c b "length fs"] using hit
      by (simp add: progress_totals_append progress_totals_simps)
  next
    case miss: False
    then have "collect b clock fs (c + b, n, out) = ((c', n', out'), None)"
      using Cons.prems f by (simp add: Let_def)
    from Cons.IH[OF this] show ?thesis
      unfolding step len hits_Suc[of c b "length fs"] using miss by simp
  qed
qed

lemma assemble_nonzero: "b \<noteq> 0 \<Longrightarrow> \<exists>batches. assemble xs b = Inr batches"
  by (simp add: assemble_def py_range_def)

lemma run_zero_batch_size:
  "import_with_batching files 0 sink clock =
     \<lparr>processed = map file_path files, submitted = [], worker_printed = [],
      main_printed = [PrintImportError ValueError], final_completed = 0, elapsed_time = None,
      raised = Some ValueError\<rparr>"
  by (simp add: import_with_batching_def assemble_def py_range_def import_error_printable)

lemma run_fields:
  fixes sink :: "nat \<Rightarrow> chunk_record list \<Rightarrow> py_exception option"
  assumes a: "assemble (gather files) b = Inr batches"
    and c: "collect b clock
              (map snd (map (\<lambda>(n, batch). process_batch (sink n) batch) (enumerate 0 batches)))
              (0, 1, []) = ((c, n, out), res)"
  defines "r \<equiv> import_with_batching files b sink clock"
  shows "processed r = map file_path files" and "submitted r = batches"
    and "final_completed r = c"
    and "res = None \<Longrightarrow> elapsed_time r = Some (clock n - clock 0)"
    and "res = None \<Longrightarrow> raised r = (if clock n - clock 0 = 0 then Some ZeroDivisionError else None)"
    and "res \<noteq> None \<Longrightarrow> elapsed_time r = None"
    and "res \<noteq> None \<Longrightarrow> raised r \<noteq> None"
    and "progress_totals (main_printed r) = progress_totals out"
proof -
  have unfold: "r = (let r0 = \<lparr>processed = map file_path files, submitted = batches,
                    worker_printed = concat (map fst (map (\<lambda>(n, batch). process_batch (sink n) batch) (enumerate 0 batches))),
                    main_printed = [], final_completed = 0, elapsed_time = None, raised = None\<rparr>
           in case res of
                Some e \<Rightarrow> r0\<lparr>main_printed := out @ fst (import_error e), final_completed := c,
                    raised := Some (snd (import_error e))\<rparr>
              | None \<Rightarrow>
                  (let elapsed = clock n - clock 0 in
                   if elapsed = 0
                   then r0\<lparr>main_printed := out @ [PrintImportError ZeroDivisionError],
                          final_completed := c, elapsed_time := Some elapsed,
                          raised := Some ZeroDivisionError\<rparr>
                   else r0\<lparr>main_printed := out @
                            [PrintFinished (length (gather files)) elapsed,
                             PrintFinalRate (real (length (gather files)) / elapsed)],
                          final_completed := c, elapsed_time := Some elapsed\<rparr>))"
    unfolding r_def import_with_batching_def Let_def a sum.case c prod.case import_error_printable
    by (cases res) simp_all
  show "processed r = map file_path files" "submitted r = batches" "final_completed r = c"
    unfolding unfold by (simp_all add: Let_def split: option.split)
  show "res = None \<Longrightarrow> elapsed_time r = Some (clock n - clock 0)"
    unfolding unfold by (simp add: Let_def)
  show "res = None \<Longrightarrow> raised r = (if clock n - clock 0 = 0 then Some ZeroDivisionError else None)"
    unfolding unfold by (simp add: Let_def)
  show "res \<noteq> None \<Longrightarrow> elapsed_time r = None"
    unfolding unfold by (auto simp: Let_def)
  show "res \<noteq> None \<Longrightarrow> raised r \<noteq> None"
    unfolding unfold by (auto simp: Let_def)
  show "progress_totals (main_printed r) = progress_totals out"
    unfolding unfold
    by (simp add: Let_def progress_totals_append progress_totals_simps
        progress_totals_import_error split: option.split)
qed

lemma run_outcome:
  fixes sink :: "nat \<Rightarrow> chunk_record list \<Rightarrow> py_exception option"
  assumes "b \<noteq> 0"
  obtains batches c n out res where
    "assemble (gather files) b = Inr batches"
    "collect b clock
       (map snd (map (\<lambda>(n, batch). process_batch (sink n) batch) (enumerate 0 batches)))
       (0, 1, []) = ((c, n, out), res)"
proof -
  obtain batches where a: "assemble (gather files) b = Inr batches"
    using assemble_nonzero[OF assms] by blast
  obtain c n out res where
    "collect b clock
       (map snd (map (\<lambda>(n, batch). process_batch (sink n) batch) (enumerate 0 batches)))
       (0, 1, []) = ((c, n, out), res)"
    by (metis prod_cases3 surj_pair)
  with a show ?thesis by (rule that)
qed

text \<open>
  C10, amended: \<open>process_batch\<close> returns normally exactly when the submission raises
  nothing or raises an instance of \<open>Exception\<close> that the handler can print. An
  exception that is not an instance of \<open>Exception\<close> is not caught, and an exception
  raised by the \<open>print\<close> of the handler leaves the function; the future then holds it
  and \<open>future.result()\<close> raises it.
\<close>

theorem process_batch_returns_iff:
  "snd (process_batch sink chunks) = Inr ()
     \<longleftrightarrow> (\<forall>e. sink chunks = Some e \<longrightarrow> is_exception e \<and> print_raises e = None)"
  by (cases "sink chunks") (auto simp: snd_process_batch split: option.splits)



text \<open>
  C7, amended: the final rate is computed by an unguarded division. Once the total
  elapsed time is computed, the run ends normally when it is not zero, and fails with
  \<open>ZeroDivisionError\<close>, printed and re-raised, when it is zero.
\<close>

theorem final_rate_unguarded:
  assumes "elapsed_time (import_with_batching files batch_size sink clock) = Some e"
  shows "raised (import_with_batching files batch_size sink clock)
     = (if e = 0 then Some ZeroDivisionError else None)"
proof (cases "batch_size = 0")
  case True
  then show ?thesis using assms by (simp add: run_zero_batch_size)
next
  case False
  then obtain batches c n out res where
    a: "assemble (gather files) batch_size = Inr batches" and
    c: "collect batch_size clock
          (map snd (map (\<lambda>(n, batch). process_batch (sink n) batch) (enumerate 0 batches)))
          (0, 1, []) = ((c, n, out), res)"
    by (rule run_outcome)
  have "res = None" using run_fields(6)[OF a c] assms by (cases res) simp_all
  then show ?thesis using run_fields(4,5)[OF a c] assms by simp
qed

text \<open>
  C2, amended: in a run that ends normally, with a positive \<open>batch_size\<close> that divides
  the number of chunks (so that no batch is partial), the final value of \<open>completed\<close>
  is the number of all chunks, which is the total size of all batches handed to the
  executor, whatever the sink did with them: a batch whose submission failed counts as
  completed.
\<close>

theorem completed_counts_every_batch:
  assumes "0 < batch_size"
    and "int (length (gather files)) mod batch_size = 0"
    and "raised (import_with_batching files batch_size sink clock) = None"
  shows "final_completed (import_with_batching files batch_size sink clock)
       = int (length (gather files))
     \<and> final_completed (import_with_batching files batch_size sink clock)
       = int (sum_list (map length (submitted (import_with_batching files batch_size sink clock))))"
proof -
  from assms(1) have "batch_size \<noteq> 0" by simp
  then obtain batches c n out res where
    a: "assemble (gather files) batch_size = Inr batches" and
    c: "collect batch_size clock
          (map snd (map (\<lambda>(n, batch). process_batch (sink n) batch) (enumerate 0 batches)))
          (0, 1, []) = ((c, n, out), res)"
    by (rule run_outcome)
  have res: "res = None" using run_fields(7)[OF a c] assms(3) by (cases res) simp_all
  then have "c = int (length batches) * batch_size"
    using collect_returns[OF c[unfolded res]] by simp
  moreover have "int (length batches) = int (length (gather files)) div batch_size"
    using length_assemble[OF assms(1) a] div_round_up[OF assms(1), of "int (length (gather files))"]
      assms(2) by simp
  ultimately have "c = int (length (gather files))" using assms(2) by (simp add: mod_eq_0_iff_dvd)
  moreover have "concat batches = gather files" using assms(1) a by (rule concat_assemble)
  then have "sum_list (map length batches) = length (gather files)"
    by (metis length_concat)
  ultimately show ?thesis using run_fields(2,3)[OF a c] by simp
qed

text \<open>
  C8, amended: in a run that ends normally, progress is printed after the \<open>j\<close>-th
  future exactly when the running total \<open>j * batch_size\<close> is an exact multiple of 5000;
  a multiple that the total steps over is not reported.
\<close>

theorem progress_at_exact_multiples:
  assumes "raised (import_with_batching files batch_size sink clock) = None"
  shows "progress_totals (main_printed (import_with_batching files batch_size sink clock))
     = filter (\<lambda>t. t mod 5000 = 0)
         (map (\<lambda>j. int j * batch_size)
            [1..<Suc (length (submitted (import_with_batching files batch_size sink clock)))])"
proof -
  have "batch_size \<noteq> 0" using assms by (auto simp: run_zero_batch_size)
  then obtain batches c n out res where
    a: "assemble (gather files) batch_size = Inr batches" and
    c: "collect batch_size clock
          (map snd (map (\<lambda>(n, batch). process_batch (sink n) batch) (enumerate 0 batches)))
          (0, 1, []) = ((c, n, out), res)"
    by (rule run_outcome)
  have res: "res = None" using run_fields(7)[OF a c] assms by (cases res) simp_all
  then have "progress_totals out = hits 0 batch_size (length batches)"
    using collect_returns[OF c[unfolded res]] by (simp add: progress_totals_simps)
  then show ?thesis using run_fields(2,8)[OF a c] by (simp add: hits_def)
qed

subsection \<open>The concrete runs\<close>

lemma gather_two_files: "gather two_files = [text_chunk ''x'', text_chunk ''y'']"
  by (simp add: gather_def two_files_def process_file_def split_text_into_chunks_def
      strip_def isspace_def)

lemma assemble_pair_1: "assemble [a, b] 1 = Inr [[a], [b]]"
  by (simp add: assemble_def py_range_def py_slice_def range_from.simps)

lemma assemble_pair_5000: "assemble [a, b] 5000 = Inr [[a, b]]"
  by (simp add: assemble_def py_range_def py_slice_def range_from.simps)

lemma assemble_empty: "assemble [] 128 = Inr []"
  by (simp add: assemble_def py_range_def range_from.simps)

lemma gather_empty: "gather [] = []"
  by (simp add: gather_def)

lemmas run_eval = import_with_batching_def Let_def process_batch_def submit_objects_def
  import_error_def ticking_def frozen_def accept_all_def reject_second_def abort_second_def

lemma run_two_files_1:
  "raised (import_with_batching two_files 1 reject_second ticking) = None"
  "final_completed (import_with_batching two_files 1 reject_second ticking) = 2"
  "submitted (import_with_batching two_files 1 reject_second ticking)
     = [[text_chunk ''x''], [text_chunk ''y'']]"
  "elapsed_time (import_with_batching two_files 1 reject_second ticking) = Some 1"
  "worker_printed (import_with_batching two_files 1 reject_second ticking)
     = [PrintException (OtherException ''rejected'')]"
  by (simp_all add: run_eval gather_two_files assemble_pair_1)

text \<open>
  C2, as the specification states it, at a run of two batches of one chunk each whose
  second submission the sink rejects: \<open>completed\<close> ends at 2, the chunks of the accepted
  batch are 1.
\<close>

theorem completed_counts_rejected_batch:
  "final_completed (import_with_batching two_files 1 reject_second ticking)
     \<noteq> int (accepted_chunks reject_second
              (submitted (import_with_batching two_files 1 reject_second ticking)))"
  by (simp add: run_two_files_1 accepted_chunks_def reject_second_def)

text \<open>
  C2, amended, at the same run: it ends normally and \<open>completed\<close> is 2, both chunks.
\<close>

theorem completed_counts_every_batch_witness:
  "(0::int) < 1 \<and> int (length (gather two_files)) mod 1 = 0
   \<and> raised (import_with_batching two_files 1 reject_second ticking) = None
   \<and> final_completed (import_with_batching two_files 1 reject_second ticking)
       = int (length (gather two_files))
   \<and> final_completed (import_with_batching two_files 1 reject_second ticking)
       = int (sum_list (map length (submitted (import_with_batching two_files 1 reject_second ticking))))"
proof -
  have h1: "(0::int) < 1" by simp
  have h2: "int (length (gather two_files)) mod 1 = 0" by simp
  have h3: "raised (import_with_batching two_files 1 reject_second ticking) = None"
    by (rule run_two_files_1)
  show ?thesis using h1 h2 h3 completed_counts_every_batch [OF h1 h2 h3] by blast
qed

text \<open>
  C7, as the specification states it, at an empty directory and a clock that reads the
  same value twice: the total elapsed time is zero and the division is not skipped.
\<close>

theorem zero_elapsed_raises:
  "elapsed_time (import_with_batching [] 128 accept_all frozen) = Some 0
   \<and> raised (import_with_batching [] 128 accept_all frozen) = Some ZeroDivisionError"
  by (simp add: run_eval gather_empty assemble_empty)

text \<open>
  C7, amended, at a run whose total elapsed time is one second.
\<close>

theorem final_rate_unguarded_witness:
  "elapsed_time (import_with_batching two_files 1 reject_second ticking) = Some 1
   \<and> raised (import_with_batching two_files 1 reject_second ticking)
     = (if (1::real) = 0 then Some ZeroDivisionError else None)"
proof -
  have h: "elapsed_time (import_with_batching two_files 1 reject_second ticking) = Some 1"
    by (rule run_two_files_1)
  show ?thesis using h final_rate_unguarded [OF h] by blast
qed

lemma run_two_files_5000:
  "raised (import_with_batching two_files 5000 accept_all ticking) = None"
  "progress_totals (main_printed (import_with_batching two_files 5000 accept_all ticking)) = [5000]"
  by (simp_all add: run_eval gather_two_files assemble_pair_5000 progress_totals_def List.map_filter_def)

text \<open>
  C8, amended, at a run of one batch with \<open>batch_size = 5000\<close>: progress is printed at 5000.
\<close>

theorem progress_at_exact_multiples_witness:
  "raised (import_with_batching two_files 5000 accept_all ticking) = None
   \<and> progress_totals (main_printed (import_with_batching two_files 5000 accept_all ticking))
     = filter (\<lambda>t. t mod 5000 = 0)
         (map (\<lambda>j. int j * 5000)
            [1..<Suc (length (submitted (import_with_batching two_files 5000 accept_all ticking)))])"
proof -
  have h: "raised (import_with_batching two_files 5000 accept_all ticking) = None"
    by (rule run_two_files_5000)
  show ?thesis using h progress_at_exact_multiples [OF h] by blast
qed

lemma length_page_chunks:
  "length (page_chunks path number text) = length (split_text_into_chunks text 1000)"
  by (simp add: page_chunks_def)

lemma length_process_pdf_single:
  assumes "\<And>p. p \<in> set pages \<Longrightarrow> length (split_text_into_chunks p 1000) = 1"
  shows "length (process_pdf path pages) = length pages"
proof -
  have "length (concat (map (\<lambda>(number, text). page_chunks path number text) (enumerate i pages)))
      = length pages" for i
    using assms by (induction pages arbitrary: i) (simp_all add: length_page_chunks)
  then show ?thesis by (simp add: process_pdf_def)
qed

lemma length_gather_big_pdf: "length (gather big_pdf) = 6000"
proof -
  have "split_text_into_chunks ''x'' 1000 = [''x'']"
    by (simp add: split_text_into_chunks_def strip_def isspace_def)
  then have "length (process_pdf ''big.pdf'' (replicate 6000 ''x'')) = length (replicate 6000 ''x'')"
    by (intro length_process_pdf_single) simp
  then show ?thesis by (simp add: gather_def big_pdf_def process_file_def)
qed

text \<open>
  C8, as the specification states it, at 6000 chunks in one batch of 6000: the running
  total goes from 0 to 6000, over 5000, and the run ends normally without a progress
  line.
\<close>

theorem crossing_without_progress:
  "final_completed (import_with_batching big_pdf 6000 accept_all ticking) = 6000
   \<and> progress_totals (main_printed (import_with_batching big_pdf 6000 accept_all ticking)) = []"
proof -
  obtain batches where a: "assemble (gather big_pdf) 6000 = Inr batches"
    using assemble_nonzero[of 6000 "gather big_pdf"] by auto
  have "int (length batches) = 1"
    using length_assemble[OF _ a] by (simp add: length_gather_big_pdf)
  then obtain batch where one: "batches = [batch]"
    by (cases batches) simp_all
  have c: "collect 6000 ticking
      (map snd (map (\<lambda>(n, batch). process_batch (accept_all n) batch) (enumerate 0 batches)))
      (0, 1, []) = ((6000, 1, []), None)"
    by (simp add: one process_batch_def submit_objects_def accept_all_def)
  show ?thesis
    using run_fields(3,8)[OF a c] by (simp add: progress_totals_simps)
qed

text \<open>
  C10, as the specification states it, at a submission that raises \<open>SystemExit\<close>: the
  handler does not take it, the call of \<open>process_batch\<close> ends with it, and the run
  raises it out of \<open>future.result()\<close>.
\<close>

theorem process_batch_lets_base_exception_through:
  "snd (process_batch (abort_second 1) [text_chunk ''y'']) = Inl (BaseException ''SystemExit'')
   \<and> raised (import_with_batching two_files 1 abort_second ticking)
       = Some (BaseException ''SystemExit'')"
  by (simp add: run_eval gather_two_files assemble_pair_1)

text \<open>C10, amended, at a submission that raises an \<open>Exception\<close> with a message.\<close>

theorem process_batch_returns_iff_witness:
  "reject_second 1 [text_chunk ''y''] = Some (OtherException ''rejected'')
   \<and> is_exception (OtherException ''rejected'')
   \<and> print_raises (OtherException ''rejected'') = None
   \<and> snd (process_batch (reject_second 1) [text_chunk ''y'']) = Inr ()"
proof -
  have raises: "reject_second 1 [text_chunk ''y''] = Some (OtherException ''rejected'')"
    by (simp add: reject_second_def)
  have h: "\<forall>e. reject_second 1 [text_chunk ''y''] = Some e
      \<longrightarrow> is_exception e \<and> print_raises e = None"
    by (simp add: reject_second_def)
  have "snd (process_batch (reject_second 1) [text_chunk ''y'']) = Inr ()"
    using h process_batch_returns_iff [of "reject_second 1" "[text_chunk ''y'']"] by blast
  then show ?thesis using raises by simp
qed

end
